theory Spec2Isabelle
  imports Main "HOL-Library.AList"
begin

section \<open>Strings\<close>

text \<open>
  A Python \<open>str\<close> is a sequence of Unicode code points and is modelled as a list of
  natural numbers, one per code point. \<open>str\<close> turns a literal of the theory into such a
  list. The whitespace characters of \<open>str.strip\<close>, \<open>str.isspace\<close> and of the pattern
  \<open>\s\<close> are the same 29 code points (Unicode 14, the database of CPython 3.11).
\<close>

type_synonym ustring = "nat list"

definition str :: "string \<Rightarrow> ustring" where
  "str s = map of_char s"

definition is_space :: "nat \<Rightarrow> bool" where
  "is_space c = ((9 \<le> c \<and> c \<le> 13) \<or> (28 \<le> c \<and> c \<le> 32) \<or> c = 133 \<or> c = 160
     \<or> c = 5760 \<or> (8192 \<le> c \<and> c \<le> 8202) \<or> c = 8232 \<or> c = 8233 \<or> c = 8239
     \<or> c = 8287 \<or> c = 12288)"

text \<open>\<open>text.strip()\<close>: whitespace removed from both ends.\<close>

definition strip :: "ustring \<Rightarrow> ustring" where
  "strip s = rev (dropWhile is_space (rev (dropWhile is_space s)))"

text \<open>
  \<open>re.sub(r"\s+", " ", s)\<close>: every maximal run of whitespace is replaced by one space,
  scanning from the left.
\<close>

function sub_ws :: "ustring \<Rightarrow> ustring" where
  "sub_ws [] = []"
| "sub_ws (c # cs) =
     (if is_space c then 32 # sub_ws (dropWhile is_space cs) else c # sub_ws cs)"
  by pat_completeness auto
termination
  by (relation "measure length") (auto simp: length_dropWhile_le less_Suc_eq_le)

text \<open>
  \<open>clean(text)\<close> of the source. \<open>not text\<close> holds of the empty string and of \<open>None\<close>;
  \<open>clean_opt\<close> is the function on an argument that may be absent.
\<close>

definition clean :: "ustring \<Rightarrow> ustring" where
  "clean text = (if text = [] then [] else sub_ws (strip text))"

definition clean_opt :: "ustring option \<Rightarrow> ustring" where
  "clean_opt text = (case text of None \<Rightarrow> [] | Some s \<Rightarrow> clean s)"

text \<open>\<open>sep.join(xs)\<close>.\<close>

fun join :: "ustring \<Rightarrow> ustring list \<Rightarrow> ustring" where
  "join sep [] = []"
| "join sep [x] = x"
| "join sep (x # y # r) = x @ sep @ join sep (y # r)"

text \<open>
  What the normalizer is meant to compute, stated without the code's two steps: the
  maximal runs of characters that are not whitespace, in order (\<open>words\<close>), joined by
  single spaces.
\<close>

function words :: "ustring \<Rightarrow> ustring list" where
  "words [] = []"
| "words (c # cs) =
     (if is_space c then words cs
      else (c # takeWhile (\<lambda>x. \<not> is_space x) cs) # words (dropWhile (\<lambda>x. \<not> is_space x) cs))"
  by pat_completeness auto
termination
  by (relation "measure length") (auto simp: length_dropWhile_le less_Suc_eq_le)

text \<open>
  A string in which every whitespace character is a space that is followed by a
  character that is not whitespace: no run of two, and no whitespace other than the
  space.
\<close>

fun single_spaced :: "ustring \<Rightarrow> bool" where
  "single_spaced [] = True"
| "single_spaced [c] = (is_space c \<longrightarrow> c = 32)"
| "single_spaced (a # b # r) =
     ((is_space a \<longrightarrow> a = 32 \<and> \<not> is_space b) \<and> single_spaced (b # r))"

text \<open>Neither the first nor the last character is whitespace.\<close>

definition no_outer_space :: "ustring \<Rightarrow> bool" where
  "no_outer_space s = (s = [] \<or> (\<not> is_space (hd s) \<and> \<not> is_space (last s)))"

section \<open>Properties of the text normalizer\<close>

lemma is_space_blank: "is_space 32"
  by (simp add: is_space_def)

lemma last_dropWhile: "dropWhile P xs \<noteq> [] \<Longrightarrow> last (dropWhile P xs) = last xs"
  by (induction xs) (auto split: if_splits)

lemma strip_no_outer_space: "no_outer_space (strip s)"
proof (cases "strip s = []")
  case True
  then show ?thesis by (simp add: no_outer_space_def)
next
  case False
  define d where "d = dropWhile is_space s"
  define e where "e = dropWhile is_space (rev d)"
  have st: "strip s = rev e" by (simp add: strip_def d_def e_def)
  from False st have e: "e \<noteq> []" by simp
  then have "rev d \<noteq> []" unfolding e_def by auto
  then have d: "d \<noteq> []" by simp
  have "\<not> is_space (hd e)" using e unfolding e_def by (rule hd_dropWhile)
  then have l: "\<not> is_space (last (strip s))" using e by (simp add: st last_rev)
  have "last e = last (rev d)" using e unfolding e_def by (rule last_dropWhile)
  also have "\<dots> = hd d" using d by (simp add: last_rev)
  finally have "last e = hd d" .
  moreover have "\<not> is_space (hd d)" using d unfolding d_def by (rule hd_dropWhile)
  ultimately have h: "\<not> is_space (hd (strip s))" using e by (simp add: st hd_rev)
  from h l False show ?thesis by (simp add: no_outer_space_def)
qed

lemma strip_fixed: "no_outer_space s \<Longrightarrow> strip s = s"
proof (cases s)
  case Nil
  then show ?thesis by (simp add: strip_def)
next
  case (Cons a r)
  assume "no_outer_space s"
  with Cons have h: "\<not> is_space a" and l: "\<not> is_space (last s)"
    by (auto simp: no_outer_space_def)
  from h Cons have 1: "dropWhile is_space s = s" by simp
  have "hd (rev s) = last s" using Cons by (simp add: hd_rev)
  then have "dropWhile is_space (rev s) = rev s"
    using l by (simp add: dropWhile_eq_self_iff)
  with 1 show ?thesis by (simp add: strip_def)
qed

lemma sub_ws_single_spaced: "single_spaced (sub_ws s)"
proof (induction s rule: sub_ws.induct)
  case 1
  then show ?case by simp
next
  case (2 c cs)
  show ?case
  proof (cases "is_space c")
    case True
    let ?d = "dropWhile is_space cs"
    have step: "sub_ws (c # cs) = 32 # sub_ws ?d" using True by simp
    show ?thesis
    proof (cases "?d = []")
      case e: True
      have "sub_ws ?d = []" unfolding e by simp
      then show ?thesis unfolding step by simp
    next
      case ne: False
      then obtain a r where ar: "?d = a # r" by (cases ?d) blast+
      then have "\<not> is_space a" using hd_dropWhile [of is_space cs] by simp
      moreover have "single_spaced (sub_ws ?d)" using True "2.IH"(1) by simp
      ultimately show ?thesis unfolding step ar by simp
    qed
  next
    case False
    with "2.IH"(2) have "single_spaced (sub_ws cs)" by simp
    with False show ?thesis by (cases "sub_ws cs") auto
  qed
qed

lemma sub_ws_fixed: "single_spaced s \<Longrightarrow> sub_ws s = s"
proof (induction s rule: single_spaced.induct)
  case 1
  then show ?case by simp
next
  case (2 c)
  then show ?case by auto
next
  case (3 a b r)
  then show ?case by auto
qed

lemma sub_ws_Nil: "sub_ws s = [] \<longleftrightarrow> s = []"
  by (cases s) auto

lemma sub_ws_hd: "s \<noteq> [] \<Longrightarrow> \<not> is_space (hd s) \<Longrightarrow> hd (sub_ws s) = hd s"
  by (cases s) auto

lemma sub_ws_last: "s \<noteq> [] \<Longrightarrow> \<not> is_space (last s) \<Longrightarrow> \<not> is_space (last (sub_ws s))"
proof (induction s rule: sub_ws.induct)
  case 1
  then show ?case by simp
next
  case (2 c cs)
  show ?case
  proof (cases "is_space c")
    case True
    let ?d = "dropWhile is_space cs"
    from True "2.prems" have cs: "cs \<noteq> []" by auto
    with "2.prems" have lc: "\<not> is_space (last cs)" by simp
    then have d: "?d \<noteq> []" using last_in_set [OF cs] by auto
    have "last ?d = last cs" using d by (rule last_dropWhile)
    with lc have "\<not> is_space (last ?d)" by simp
    with d True "2.IH"(1) have n: "\<not> is_space (last (sub_ws ?d))" by blast
    have step: "sub_ws (c # cs) = 32 # sub_ws ?d" using True by simp
    have "sub_ws ?d \<noteq> []" using d sub_ws_Nil by blast
    then have "last (32 # sub_ws ?d) = last (sub_ws ?d)" by (rule last_ConsR)
    with n show ?thesis unfolding step by simp
  next
    case False
    show ?thesis
    proof (cases "cs = []")
      case True
      with False show ?thesis by simp
    next
      case ne: False
      with "2.prems" have "\<not> is_space (last cs)" by simp
      with False ne "2.IH"(2) have "\<not> is_space (last (sub_ws cs))" by simp
      with False ne show ?thesis by (simp add: sub_ws_Nil)
    qed
  qed
qed

lemma sub_ws_no_outer_space: "no_outer_space s \<Longrightarrow> no_outer_space (sub_ws s)"
  by (auto simp: no_outer_space_def sub_ws_Nil sub_ws_hd sub_ws_last)

lemma clean_no_outer_space: "no_outer_space (clean x)"
  by (simp add: clean_def sub_ws_no_outer_space strip_no_outer_space)
     (simp add: no_outer_space_def)

lemma clean_single_spaced: "single_spaced (clean x)"
  by (simp add: clean_def sub_ws_single_spaced)

lemma clean_fixed: "no_outer_space s \<Longrightarrow> single_spaced s \<Longrightarrow> clean s = s"
  by (simp add: clean_def strip_fixed sub_ws_fixed)

lemma filter_dropWhile_space:
  "filter (\<lambda>c. \<not> is_space c) (dropWhile is_space s) = filter (\<lambda>c. \<not> is_space c) s"
  by (induction s) auto

lemma sub_ws_keeps_text:
  "filter (\<lambda>c. \<not> is_space c) (sub_ws s) = filter (\<lambda>c. \<not> is_space c) s"
  by (induction s rule: sub_ws.induct) (auto simp: is_space_blank filter_dropWhile_space)

lemma strip_keeps_text:
  "filter (\<lambda>c. \<not> is_space c) (strip s) = filter (\<lambda>c. \<not> is_space c) s"
proof -
  have "filter (\<lambda>c. \<not> is_space c) (strip s) =
        rev (filter (\<lambda>c. \<not> is_space c) (dropWhile is_space (rev (dropWhile is_space s))))"
    by (simp add: strip_def rev_filter)
  also have "\<dots> = rev (filter (\<lambda>c. \<not> is_space c) (rev (dropWhile is_space s)))"
    by (simp only: filter_dropWhile_space)
  also have "\<dots> = filter (\<lambda>c. \<not> is_space c) (dropWhile is_space s)"
    by (simp add: rev_filter)
  finally show ?thesis by (simp add: filter_dropWhile_space)
qed

lemma clean_keeps_text:
  "filter (\<lambda>c. \<not> is_space c) (clean x) = filter (\<lambda>c. \<not> is_space c) x"
  by (simp add: clean_def sub_ws_keeps_text strip_keeps_text)

subsection \<open>The normalizer joins the words of its argument\<close>

lemma join_Cons: "ys \<noteq> [] \<Longrightarrow> join sep (x # ys) = x @ sep @ join sep ys"
  by (cases ys) auto

lemma join_head: "join sep ((c # w) # rest) = c # join sep (w # rest)"
  by (cases rest) auto

lemma join_append:
  "xs \<noteq> [] \<Longrightarrow> ys \<noteq> [] \<Longrightarrow> join sep (xs @ ys) = join sep xs @ sep @ join sep ys"
proof (induction sep xs rule: join.induct)
  case (1 sep)
  then show ?case by simp
next
  case (2 sep x)
  then show ?case by (simp add: join_Cons)
next
  case (3 sep x y r)
  then show ?case by simp
qed

lemma words_all_space: "\<forall>c\<in>set w. is_space c \<Longrightarrow> words w = []"
  by (induction w) auto

lemma words_lead: "\<forall>c\<in>set w. is_space c \<Longrightarrow> words (w @ s) = words s"
  by (induction w) auto

lemma words_no_space: "s \<noteq> [] \<Longrightarrow> \<forall>c\<in>set s. \<not> is_space c \<Longrightarrow> words s = [s]"
proof (cases s)
  case Nil
  assume "s \<noteq> []"
  with Nil show ?thesis by simp
next
  case (Cons a r)
  assume "\<forall>c\<in>set s. \<not> is_space c"
  with Cons have a: "\<not> is_space a" and r: "\<forall>c\<in>set r. \<not> is_space c" by auto
  from r have t: "takeWhile (\<lambda>x. \<not> is_space x) r = r"
    and d: "dropWhile (\<lambda>x. \<not> is_space x) r = []" by simp_all
  have "words (a # r) =
        (a # takeWhile (\<lambda>x. \<not> is_space x) r) # words (dropWhile (\<lambda>x. \<not> is_space x) r)"
    using a by simp
  also have "\<dots> = [a # r]" by (simp only: t d words.simps(1))
  finally show ?thesis using Cons by simp
qed

lemma words_sep: "is_space c \<Longrightarrow> words (s @ c # t) = words s @ words t"
proof (induction s rule: words.induct)
  case 1
  then show ?case by simp
next
  case (2 x xs)
  let ?P = "\<lambda>x. \<not> is_space x"
  show ?case
  proof (cases "is_space x")
    case True
    with 2 show ?thesis by simp
  next
    case False
    have step: "words ((x # xs) @ c # t) =
                (x # takeWhile ?P (xs @ c # t)) # words (dropWhile ?P (xs @ c # t))"
      using False by simp
    have step': "words (x # xs) = (x # takeWhile ?P xs) # words (dropWhile ?P xs)"
      using False by simp
    show ?thesis
    proof (cases "\<forall>y\<in>set xs. \<not> is_space y")
      case True
      have t1: "takeWhile ?P (xs @ c # t) = xs"
        using True \<open>is_space c\<close> by (simp add: takeWhile_append2)
      have d1: "dropWhile ?P (xs @ c # t) = c # t"
        using True \<open>is_space c\<close> by (simp add: dropWhile_append2)
      from True have t2: "takeWhile ?P xs = xs" and d2: "dropWhile ?P xs = []" by simp_all
      have "words ((x # xs) @ c # t) = (x # xs) # words (c # t)" by (simp only: step t1 d1)
      also have "\<dots> = (x # xs) # words t" using \<open>is_space c\<close> by simp
      finally have A: "words ((x # xs) @ c # t) = (x # xs) # words t" .
      have B: "words (x # xs) = [x # xs]" by (simp only: step' t2 d2 words.simps(1))
      show ?thesis unfolding A B by simp
    next
      case ex: False
      then obtain y where y: "y \<in> set xs" "is_space y" by blast
      then have t1: "takeWhile ?P (xs @ c # t) = takeWhile ?P xs"
        and d1: "dropWhile ?P (xs @ c # t) = dropWhile ?P xs @ c # t"
        by (simp_all add: takeWhile_append1 dropWhile_append1)
      have ih: "words (dropWhile ?P xs @ c # t) = words (dropWhile ?P xs) @ words t"
        using "2.IH"(2) [OF False "2.prems"] .
      show ?thesis unfolding step step' t1 d1 ih by simp
    qed
  qed
qed

lemma words_trail: "\<forall>c\<in>set w. is_space c \<Longrightarrow> words (s @ w) = words s"
  by (cases w) (simp_all add: words_sep words_all_space)

lemma words_Nil: "words s = [] \<longleftrightarrow> (\<forall>c\<in>set s. is_space c)"
  by (induction s) auto

lemma words_strip: "words (strip s) = words s"
proof -
  define d where "d = dropWhile is_space s"
  have "words s = words (takeWhile is_space s @ d)" by (simp add: d_def)
  also have "\<dots> = words d" by (rule words_lead) (auto dest: set_takeWhileD)
  finally have 1: "words s = words d" .
  have "d = rev (dropWhile is_space (rev d)) @ rev (takeWhile is_space (rev d))"
    by (simp flip: rev_append)
  then have "words d = words (strip s @ rev (takeWhile is_space (rev d)))"
    by (simp add: strip_def d_def)
  also have "\<dots> = words (strip s)" by (rule words_trail) (auto dest: set_takeWhileD)
  finally show ?thesis using 1 by simp
qed

lemma sub_ws_words:
  "s \<noteq> [] \<Longrightarrow> \<not> is_space (last s) \<Longrightarrow>
   sub_ws s = (if is_space (hd s) then [32] else []) @ join [32] (words s)"
proof (induction s rule: sub_ws.induct)
  case 1
  then show ?case by simp
next
  case (2 c cs)
  show ?case
  proof (cases "is_space c")
    case True
    let ?d = "dropWhile is_space cs"
    from True "2.prems" have cs: "cs \<noteq> []" by auto
    with "2.prems" have lc: "\<not> is_space (last cs)" by simp
    then have d: "?d \<noteq> []" using last_in_set [OF cs] by auto
    have "last ?d = last cs" using d by (rule last_dropWhile)
    with lc have ld: "\<not> is_space (last ?d)" by simp
    have hd: "\<not> is_space (hd ?d)" using d by (rule hd_dropWhile)
    have "cs = takeWhile is_space cs @ ?d" by simp
    then have "words cs = words (takeWhile is_space cs @ ?d)" by simp
    also have "\<dots> = words ?d" by (rule words_lead) (auto dest: set_takeWhileD)
    finally have w: "words cs = words ?d" .
    from "2.IH"(1) [OF True d ld] hd have "sub_ws ?d = join [32] (words ?d)" by simp
    with True w show ?thesis by simp
  next
    case False
    show ?thesis
    proof (cases cs)
      case Nil
      with False show ?thesis by simp
    next
      case (Cons b r)
      with "2.prems" have lc: "\<not> is_space (last cs)" by simp
      from Cons have ne: "cs \<noteq> []" by simp
      have ih: "sub_ws cs = (if is_space (hd cs) then [32] else []) @ join [32] (words cs)"
        using "2.IH"(2) [OF False ne lc] .
      show ?thesis
      proof (cases "is_space b")
        case True
        have "words cs \<noteq> []" using lc last_in_set [OF ne] by (auto simp: words_Nil)
        then show ?thesis using False True Cons ih by (simp add: join_Cons)
      next
        case nb: False
        then show ?thesis using False Cons ih by (simp add: join_head)
      qed
    qed
  qed
qed

lemma clean_words: "clean x = join [32] (words x)"
proof (cases "strip x = []")
  case True
  then have "words (strip x) = []" by simp
  then have "words x = []" by (simp add: words_strip)
  with True show ?thesis by (simp add: clean_def)
next
  case False
  then have x: "x \<noteq> []" by (auto simp: strip_def)
  from False strip_no_outer_space [of x]
  have "\<not> is_space (hd (strip x))" "\<not> is_space (last (strip x))"
    by (auto simp: no_outer_space_def)
  with sub_ws_words [OF False] have "sub_ws (strip x) = join [32] (words (strip x))" by simp
  with x show ?thesis by (simp add: clean_def words_strip)
qed

lemma clean_collapse:
  assumes "\<not> is_space a" "\<not> is_space b" "w \<noteq> []" "\<forall>c\<in>set w. is_space c"
  shows "clean (u @ a # w @ b # v) = clean (u @ [a]) @ 32 # clean (b # v)"
proof -
  from assms(3) obtain c w' where w: "w = c # w'" by (cases w) auto
  with assms(4) have c: "is_space c" and w': "\<forall>c\<in>set w'. is_space c" by auto
  have "words (u @ a # w @ b # v) = words ((u @ [a]) @ c # (w' @ b # v))" by (simp add: w)
  also have "\<dots> = words (u @ [a]) @ words (w' @ b # v)" using c by (rule words_sep)
  also have "words (w' @ b # v) = words (b # v)" using w' by (rule words_lead)
  finally have 1: "words (u @ a # w @ b # v) = words (u @ [a]) @ words (b # v)" .
  have 2: "words (u @ [a]) \<noteq> []" using assms(1) by (auto simp: words_Nil)
  have 3: "words (b # v) \<noteq> []" using assms(2) by simp
  have "clean (u @ a # w @ b # v) = join [32] (words (u @ [a]) @ words (b # v))"
    by (simp only: clean_words 1)
  also have "\<dots> = join [32] (words (u @ [a])) @ [32] @ join [32] (words (b # v))"
    using 2 3 by (rule join_append)
  finally show ?thesis by (simp only: clean_words append_Cons append_Nil)
qed

lemma clean_no_space: "\<forall>c\<in>set y. \<not> is_space c \<Longrightarrow> clean y = y"
  by (cases "y = []") (simp_all add: clean_words words_no_space)

lemma clean_outer:
  "\<forall>c\<in>set t. is_space c \<Longrightarrow> clean (t @ z) = clean z \<and> clean (z @ t) = clean z"
  by (simp add: clean_words words_lead words_trail)

lemma clean_example: "clean (str (''  a   b'' @ [CHR 0x0A])) = str ''a b''"
  by (simp add: clean_def strip_def is_space_def str_def)

text \<open>
  C8. The text normalizer \<open>clean\<close> is idempotent; its result has no whitespace at
  either end; in its result every whitespace character is a single space followed by a
  character that is not whitespace, and the characters that are not whitespace are
  those of the input, in order; the result is the words of the input (its maximal runs
  of characters that are not whitespace) joined by single spaces, so that a run of
  whitespace between two characters that are not whitespace becomes exactly one space,
  a string without whitespace is returned unchanged, and whitespace at either end is
  dropped; the empty string and an absent argument give the empty string; and
  \<open>clean("  a   b\n") = "a b"\<close>.
\<close>

theorem clean_normalizes:
  "clean (clean x) = clean x
   \<and> no_outer_space (clean x)
   \<and> single_spaced (clean x)
   \<and> filter (\<lambda>c. \<not> is_space c) (clean x) = filter (\<lambda>c. \<not> is_space c) x
   \<and> clean x = join [32] (words x)
   \<and> (\<not> is_space a \<and> \<not> is_space b \<and> w \<noteq> [] \<and> list_all is_space w \<longrightarrow>
        clean (u @ a # w @ b # v) = clean (u @ [a]) @ 32 # clean (b # v))
   \<and> (list_all (\<lambda>c. \<not> is_space c) y \<longrightarrow> clean y = y)
   \<and> (list_all is_space t \<longrightarrow> clean (t @ z) = clean z \<and> clean (z @ t) = clean z)
   \<and> clean [] = [] \<and> clean_opt None = [] \<and> clean_opt (Some x) = clean x
   \<and> clean (str (''  a   b'' @ [CHR 0x0A])) = str ''a b''"
proof -
  have "clean (clean x) = clean x"
    by (rule clean_fixed) (rule clean_no_outer_space, rule clean_single_spaced)
  moreover have "clean [] = []" by (simp add: clean_def)
  moreover have "clean_opt None = []" by (simp add: clean_opt_def)
  moreover have "clean_opt (Some x) = clean x" by (simp add: clean_opt_def)
  moreover have "\<not> is_space a \<and> \<not> is_space b \<and> w \<noteq> [] \<and> list_all is_space w \<longrightarrow>
        clean (u @ a # w @ b # v) = clean (u @ [a]) @ 32 # clean (b # v)"
    using clean_collapse [of a b w u v] by (simp add: list_all_iff)
  moreover have "list_all (\<lambda>c. \<not> is_space c) y \<longrightarrow> clean y = y"
    using clean_no_space [of y] by (simp add: list_all_iff)
  moreover have "list_all is_space t \<longrightarrow> clean (t @ z) = clean z \<and> clean (z @ t) = clean z"
    using clean_outer [of t z] by (simp add: list_all_iff)
  ultimately show ?thesis
    using clean_no_outer_space [of x] clean_single_spaced [of x] clean_keeps_text [of x]
      clean_words [of x] clean_example
    by blast
qed

theorem clean_normalizes_witness:
  "clean (clean (str ''  Rs  5,00,000 '')) = str ''Rs 5,00,000''
   \<and> no_outer_space (str ''Rs 5,00,000'') \<and> single_spaced (str ''Rs 5,00,000'')
   \<and> words (str ''  Rs  5,00,000 '') = [str ''Rs'', str ''5,00,000'']
   \<and> \<not> is_space 109 \<and> \<not> is_space 75 \<and> list_all is_space [9, 10, 12288]
   \<and> clean (str ''Ra'' @ 109 # [9, 10, 12288] @ 75 # str ''umar'') = str ''Ram Kumar''
   \<and> list_all (\<lambda>c. \<not> is_space c) (str ''Nil'') \<and> clean (str ''Nil'') = str ''Nil''
   \<and> list_all is_space [160, 8195]
   \<and> clean ([160, 8195] @ str ''B.A.'') = str ''B.A.''
   \<and> clean (str ''B.A.'' @ [160, 8195]) = str ''B.A.''"
proof -
  have e: "clean (str ''  Rs  5,00,000 '') = str ''Rs 5,00,000''"
    by (simp add: clean_def strip_def is_space_def str_def)
  have f: "clean (str ''Ra'' @ [109]) = str ''Ram''" "clean (75 # str ''umar'') = str ''Kumar''"
    "clean (str ''B.A.'') = str ''B.A.''"
    by (simp_all add: clean_def strip_def is_space_def str_def)
  have g: "words (str ''  Rs  5,00,000 '') = [str ''Rs'', str ''5,00,000'']"
    by (simp add: is_space_def str_def)
  have h: "\<not> is_space 109" "\<not> is_space 75" "list_all is_space [9, 10, 12288]"
    "list_all (\<lambda>c. \<not> is_space c) (str ''Nil'')" "list_all is_space [160, 8195]"
    by (simp_all add: is_space_def str_def)
  from clean_normalizes [where x = "str ''  Rs  5,00,000 ''" and a = 109 and b = 75
      and w = "[9, 10, 12288]" and u = "str ''Ra''" and v = "str ''umar''"
      and y = "str ''Nil''" and t = "[160, 8195]" and z = "str ''B.A.''"]
  show ?thesis
    unfolding e f g using h by (simp add: str_def)
qed

end
